theory Spec2Isabelle
  imports Main
begin

section \<open>Data model (reference\_manager/models.py)\<close>

text \<open>
  Python strings are modelled as HOL strings; a character stands for a code point below 256.
  A Python dict is an association list in insertion order: \<open>dict_set\<close> overwrites the value
  of a key that is present (keeping its position) and appends a new key at the end.
\<close>

type_synonym 'v dict = "(string \<times> 'v) list"

fun dict_set :: "string \<Rightarrow> 'v \<Rightarrow> 'v dict \<Rightarrow> 'v dict" where
  "dict_set k v [] = [(k, v)]"
| "dict_set k v ((k', v') # d) =
     (if k' = k then (k', v) # d else (k', v') # dict_set k v d)"

definition dict_get :: "'v dict \<Rightarrow> string \<Rightarrow> 'v option" where
  "dict_get d k = map_of d k"

definition dict_get_default :: "'v dict \<Rightarrow> string \<Rightarrow> 'v \<Rightarrow> 'v" where
  "dict_get_default d k dflt = (case map_of d k of None \<Rightarrow> dflt | Some v \<Rightarrow> v)"



definition dict_del :: "string \<Rightarrow> 'v dict \<Rightarrow> 'v dict" where
  "dict_del k d = filter (\<lambda>(k', v). k' \<noteq> k) d"

text \<open>The field \<open>fields\<close> of the dataclass is named \<open>fields_map\<close> here.\<close>

record Reference =
  key :: string
  entry_type :: string
  fields_map :: "string dict"
  original_key :: "string option"
  file_path :: "string option"

text \<open>
  \<open>Reference\<close> is a mutable dataclass and \<open>resolve_duplicate_keys\<close> renames objects in
  place, so objects live in a store: an address is an index into the list of all allocated
  objects, and a Python list of References is a list of addresses.
\<close>

type_synonym addr = nat
type_synonym heap = "Reference list"

section \<open>Duplicate keys (reference\_manager/bibtex\_parser.py)\<close>

text \<open>Python's rendering of a non-negative \<open>int\<close> inside an f-string: decimal digits.\<close>

definition digit_char :: "nat \<Rightarrow> char" where
  "digit_char d = char_of (48 + d)"

fun str_nat :: "nat \<Rightarrow> string" where
  "str_nat n = (if n < 10 then [digit_char n] else str_nat (n div 10) @ [digit_char (n mod 10)])"

declare str_nat.simps [simp del]

text \<open>
  \<open>find_duplicate_keys\<close>: the loop fills \<open>key_map\<close>, a dict from key to the list of the
  objects carrying it (\<open>key_map_append\<close> is one iteration), and the comprehension keeps the
  keys with more than one object.
\<close>

fun key_map_append :: "string \<Rightarrow> addr \<Rightarrow> (addr list) dict \<Rightarrow> (addr list) dict" where
  "key_map_append k a [] = [(k, [a])]"
| "key_map_append k a ((k', v) # m) =
     (if k' = k then (k', v @ [a]) # m else (k', v) # key_map_append k a m)"

definition key_map_of :: "heap \<Rightarrow> addr list \<Rightarrow> (addr list) dict" where
  "key_map_of h references = fold (\<lambda>a key_map. key_map_append (key (h ! a)) a key_map) references []"

definition find_duplicate_keys :: "heap \<Rightarrow> addr list \<Rightarrow> (addr list) dict" where
  "find_duplicate_keys h references = filter (\<lambda>(k, v). length v > 1) (key_map_of h references)"

text \<open>
  \<open>resolve_duplicate_keys\<close>: \<open>rename_duplicate\<close> is the body of the inner loop over
  \<open>enumerate(dups)\<close>; it reads \<open>ref.key\<close> from the store at the moment it runs.
\<close>

definition rename_duplicate :: "string \<Rightarrow> nat \<times> addr \<Rightarrow> heap \<Rightarrow> heap" where
  "rename_duplicate k = (\<lambda>(i, a) h.
     if i > 0 then
       (let new_key = k @ ''_'' @ str_nat i;
            r = h ! a
        in h[a := r\<lparr>original_key := Some (key r), key := new_key\<rparr>])
     else h)"

definition resolve_group :: "string \<times> addr list \<Rightarrow> heap \<Rightarrow> heap" where
  "resolve_group = (\<lambda>(k, dups) h. fold (rename_duplicate k) (enumerate 0 dups) h)"

definition resolve_duplicate_keys :: "addr list \<Rightarrow> heap \<Rightarrow> addr list \<times> heap" where
  "resolve_duplicate_keys references h =
     (let resolved_refs = references;
          duplicates = find_duplicate_keys h resolved_refs
      in (resolved_refs, fold resolve_group duplicates h))"

text \<open>
  The function applied to a sequence of separate objects, as \<open>parse_bibtex_file\<close> and
  \<open>merge_bibtex_files\<close> build it: every element is allocated at its own address, the
  code runs, and the objects of the returned list are read back.
\<close>

definition resolved_values :: "Reference list \<Rightarrow> Reference list" where
  "resolved_values rs =
     (case resolve_duplicate_keys [0..<length rs] rs of (refs, h) \<Rightarrow> map (\<lambda>a. h ! a) refs)"

text \<open>
  Two notions used to state what the resolver does: \<open>renamed k i r\<close> is the object
  \<open>r\<close> after the two assignments of the loop body, and \<open>occurrences_before rs p\<close>
  counts the elements before position \<open>p\<close> that carry the key of element \<open>p\<close>.
\<close>

definition renamed :: "string \<Rightarrow> nat \<Rightarrow> Reference \<Rightarrow> Reference" where
  "renamed k i r = r\<lparr>original_key := Some (key r), key := k @ ''_'' @ str_nat i\<rparr>"

definition occurrences_before :: "Reference list \<Rightarrow> nat \<Rightarrow> nat" where
  "occurrences_before rs p = length (filter (\<lambda>r. key r = key (rs ! p)) (take p rs))"

definition mk_ref :: "string \<Rightarrow> Reference" where
  "mk_ref k = \<lparr>key = k, entry_type = ''article'', fields_map = [], original_key = Some k, file_path = None\<rparr>"

section \<open>Citation macros (reference\_manager/citation.py)\<close>

definition backslash :: char where
  "backslash = CHR 0x5C"

definition newline :: char where
  "newline = CHR 0x0A"

text \<open>\<open>sep.join(xs)\<close> of Python.\<close>

fun join :: "string \<Rightarrow> string list \<Rightarrow> string" where
  "join sep [] = []"
| "join sep [x] = x"
| "join sep (x # y # ys) = x @ sep @ join sep (y # ys)"

definition format_citation :: "Reference \<Rightarrow> string \<Rightarrow> string" where
  "format_citation reference style =
     (if style = ''cite'' then backslash # ''cite{'' @ key reference @ ''}''
      else if style = ''citep'' then backslash # ''citep{'' @ key reference @ ''}''
      else if style = ''citet'' then backslash # ''citet{'' @ key reference @ ''}''
      else if style = ''footcite'' then backslash # ''footcite{'' @ key reference @ ''}''
      else if style = ''textcite'' then backslash # ''textcite{'' @ key reference @ ''}''
      else backslash # ''cite{'' @ key reference @ ''}'')"

definition format_multiple_citations :: "Reference list \<Rightarrow> string \<Rightarrow> string" where
  "format_multiple_citations references style =
     (let keys = map key references;
          keys_str = join '','' keys
      in if style = ''cite'' then backslash # ''cite{'' @ keys_str @ ''}''
         else if style = ''citep'' then backslash # ''citep{'' @ keys_str @ ''}''
         else if style = ''citet'' then backslash # ''citet{'' @ keys_str @ ''}''
         else if style = ''footcite'' then backslash # ''footcite{'' @ keys_str @ ''}''
         else if style = ''textcite'' then backslash # ''textcite{'' @ keys_str @ ''}''
         else backslash # ''cite{'' @ keys_str @ ''}'')"

datatype error = IndexError | KeyError string | ValueError string | ParseError string | IOError string

section \<open>Python string operations\<close>

text \<open>
  \<open>isspace\<close>, \<open>isalnum\<close> and \<open>lower\<close> of Python on code points below 256.
\<close>

definition isspace :: "char \<Rightarrow> bool" where
  "isspace c = (let n = (of_char c :: nat) in
     (9 \<le> n \<and> n \<le> 13) \<or> (28 \<le> n \<and> n \<le> 32) \<or> n = 133 \<or> n = 160)"

definition isalnum :: "char \<Rightarrow> bool" where
  "isalnum c = (let n = (of_char c :: nat) in
     (48 \<le> n \<and> n \<le> 57) \<or> (65 \<le> n \<and> n \<le> 90) \<or> (97 \<le> n \<and> n \<le> 122) \<or>
     n = 170 \<or> n = 178 \<or> n = 179 \<or> n = 181 \<or> n = 185 \<or> n = 186 \<or>
     (188 \<le> n \<and> n \<le> 190) \<or> (192 \<le> n \<and> n \<le> 214) \<or> (216 \<le> n \<and> n \<le> 246) \<or>
     (248 \<le> n \<and> n \<le> 255))"

definition lower_char :: "char \<Rightarrow> char" where
  "lower_char c = (let n = (of_char c :: nat) in
     if (65 \<le> n \<and> n \<le> 90) \<or> (192 \<le> n \<and> n \<le> 214) \<or> (216 \<le> n \<and> n \<le> 222)
     then char_of (n + 32) else c)"

definition lower :: "string \<Rightarrow> string" where
  "lower s = map lower_char s"

text \<open>\<open>s.strip()\<close>: leading and trailing whitespace removed.\<close>

definition strip :: "string \<Rightarrow> string" where
  "strip s = rev (dropWhile isspace (rev (dropWhile isspace s)))"

text \<open>
  \<open>s.split(sep)\<close> for a non-empty separator (both call sites pass a literal): the
  occurrences of \<open>sep\<close> are found from the left and do not overlap; \<open>cur\<close> is the piece
  being read.
\<close>

fun split_from :: "string \<Rightarrow> string \<Rightarrow> string \<Rightarrow> string list" where
  "split_from sep cur [] = [cur]"
| "split_from sep cur (c # cs) =
     (if take (length sep) (c # cs) = sep
      then cur # split_from sep [] (drop (length sep - 1) cs)
      else split_from sep (cur @ [c]) cs)"

definition split :: "string \<Rightarrow> string \<Rightarrow> string list" where
  "split sep s = split_from sep [] s"

text \<open>\<open>s.split()\<close>: the maximal runs of non-whitespace characters.\<close>

fun split_ws_from :: "string \<Rightarrow> string \<Rightarrow> string list" where
  "split_ws_from cur [] = (if cur = [] then [] else [cur])"
| "split_ws_from cur (c # cs) =
     (if isspace c
      then (if cur = [] then split_ws_from [] cs else cur # split_ws_from [] cs)
      else split_ws_from (cur @ [c]) cs)"

definition split_ws :: "string \<Rightarrow> string list" where
  "split_ws s = split_ws_from [] s"

text \<open>\<open>sub in s\<close> for strings.\<close>

fun contains :: "string \<Rightarrow> string \<Rightarrow> bool" where
  "contains sub [] = (sub = [])"
| "contains sub (c # cs) = (take (length sub) (c # cs) = sub \<or> contains sub cs)"

text \<open>\<open>xs[i]\<close> for a non-negative index.\<close>

definition index :: "'a list \<Rightarrow> nat \<Rightarrow> error + 'a" where
  "index xs i = (if i < length xs then Inr (xs ! i) else Inl IndexError)"

definition bind :: "error + 'a \<Rightarrow> ('a \<Rightarrow> error + 'b) \<Rightarrow> error + 'b" where
  "bind m f = (case m of Inl e \<Rightarrow> Inl e | Inr x \<Rightarrow> f x)"

fun map_result :: "('a \<Rightarrow> error + 'b) \<Rightarrow> 'a list \<Rightarrow> error + 'b list" where
  "map_result f [] = Inr []"
| "map_result f (x # xs) = bind (f x) (\<lambda>y. bind (map_result f xs) (\<lambda>ys. Inr (y # ys)))"

section \<open>citation.py, continued\<close>

definition format_bibtex_entry :: "Reference \<Rightarrow> string" where
  "format_bibtex_entry reference =
     (let entry_type = lower (entry_type reference);
          key = key reference;
          entry = ''@'' @ entry_type @ ''{'' @ key @ '','' @ [newline];
          entry = fold (\<lambda>(field, value) entry. entry @ ''  '' @ field @ '' = {'' @ value @ ''},'' @ [newline])
                    (fields_map reference) entry
      in entry @ ''}'')"

text \<open>\<open>a.split(",")[0].strip()\<close>, used for each author string.\<close>

definition first_segment :: "string \<Rightarrow> error + string" where
  "first_segment a = bind (index (split '','' a) 0) (\<lambda>seg. Inr (strip seg))"

definition get_formatted_author_year :: "Reference \<Rightarrow> error + string" where
  "get_formatted_author_year reference =
     (let author = dict_get_default (fields_map reference) ''author'' ''Unknown'';
          year = dict_get_default (fields_map reference) ''year'' ''n.d.''
      in bind (index (split ''and'' author) 0) (\<lambda>first_author.
         bind (first_segment first_author) (\<lambda>last_name.
           if contains ''and'' author then
             (let author_count = length (split ''and'' author) in
              if author_count = 2 then
                (let authors = split ''and'' author in
                 bind (map_result first_segment authors) (\<lambda>last_names.
                 bind (index last_names 0) (\<lambda>l0.
                 bind (index last_names 1) (\<lambda>l1.
                   Inr (l0 @ '' and '' @ l1 @ '' ('' @ year @ '')'')))))
              else Inr (last_name @ '' et al. ('' @ year @ '')''))
           else Inr (last_name @ '' ('' @ year @ '')''))))"

section \<open>models.py, continued\<close>

definition get_standardized_filename :: "Reference \<Rightarrow> error + string" where
  "get_standardized_filename self =
     (let author = dict_get_default (fields_map self) ''author'' ''Unknown'';
          year = dict_get_default (fields_map self) ''year'' ''XXXX'';
          title = dict_get_default (fields_map self) ''title'' ''Untitled''
      in bind (index (split ''and'' author) 0) (\<lambda>first_author.
         bind (first_segment first_author) (\<lambda>last_name.
           (let clean_title = filter (\<lambda>c. isalnum c \<or> isspace c) title;
                title_words = take 3 (split_ws clean_title);
                short_title = join ''_'' title_words
            in Inr (last_name @ ''_'' @ year @ ''_'' @ short_title @ ''.pdf'')))))"

text \<open>
  The author-year rule in the words of the specification: the author field is split on the
  separator \<open>" and "\<close> (with the surrounding spaces).
\<close>

definition last_name_spec :: "string \<Rightarrow> string" where
  "last_name_spec a = (case split '','' a of seg # _ \<Rightarrow> strip seg | [] \<Rightarrow> [])"

definition author_year_spec :: "Reference \<Rightarrow> string" where
  "author_year_spec reference =
     (let author = dict_get_default (fields_map reference) ''author'' ''Unknown'';
          year = dict_get_default (fields_map reference) ''year'' ''n.d.''
      in case split '' and '' author of
           [a1] \<Rightarrow> last_name_spec a1 @ '' ('' @ year @ '')''
         | [a1, a2] \<Rightarrow> last_name_spec a1 @ '' and '' @ last_name_spec a2 @ '' ('' @ year @ '')''
         | a1 # _ \<Rightarrow> last_name_spec a1 @ '' et al. ('' @ year @ '')''
         | [] \<Rightarrow> [])"

definition filename_spec :: "Reference \<Rightarrow> string" where
  "filename_spec reference =
     (let author = dict_get_default (fields_map reference) ''author'' ''Unknown'';
          year = dict_get_default (fields_map reference) ''year'' ''XXXX'';
          title = dict_get_default (fields_map reference) ''title'' ''Untitled'';
          last_name = (case split '' and '' author of a1 # _ \<Rightarrow> last_name_spec a1 | [] \<Rightarrow> []);
          short_title = join ''_'' (take 3 (split_ws (filter (\<lambda>c. isalnum c \<or> isspace c) title)))
      in last_name @ ''_'' @ year @ ''_'' @ short_title @ ''.pdf'')"

definition with_fields :: "string dict \<Rightarrow> Reference" where
  "with_fields fs = \<lparr>key = ''ref'', entry_type = ''article'', fields_map = fs,
     original_key = None, file_path = None\<rparr>"

section \<open>Parsing and writing (reference\_manager/bibtex\_parser.py)\<close>

text \<open>
  The BibTeX grammar is the library \<open>bibtexparser\<close>, which is not part of the repository.
  It is a parameter here: \<open>load\<close> turns the text of a file into the list of its entries
  (each a dict with the reserved names \<open>ID\<close> and \<open>ENTRYTYPE\<close>) or fails, and \<open>dump\<close>
  turns a list of entries into text. The file system is a map from paths to file contents.
  A failure to open a file for writing is not modelled.
\<close>

type_synonym entry = "string dict"

definition dict_pop :: "string \<Rightarrow> 'v dict \<Rightarrow> error + ('v \<times> 'v dict)" where
  "dict_pop k d = (case map_of d k of None \<Rightarrow> Inl (KeyError k) | Some v \<Rightarrow> Inr (v, dict_del k d))"

text \<open>The body of the loop of \<open>parse_bibtex_file\<close>.\<close>

definition reference_of_entry :: "string \<Rightarrow> entry \<Rightarrow> error + Reference" where
  "reference_of_entry path entry =
     bind (dict_pop ''ID'' entry) (\<lambda>(k, entry).
     bind (dict_pop ''ENTRYTYPE'' entry) (\<lambda>(t, entry).
       Inr \<lparr>key = k, entry_type = t, fields_map = entry,
            original_key = Some k, file_path = Some path\<rparr>))"

definition parse_bibtex_file ::
  "('t \<Rightarrow> error + entry list) \<Rightarrow> (string \<rightharpoonup> 't) \<Rightarrow> string \<Rightarrow> error + Reference list" where
  "parse_bibtex_file load fs path =
     (case fs path of
        None \<Rightarrow> Inl (IOError path)
      | Some content \<Rightarrow> bind (load content) (\<lambda>entries. map_result (reference_of_entry path) entries))"

text \<open>The dict display \<open>{'ID': ref.key, 'ENTRYTYPE': ref.entry_type, **ref.fields}\<close>.\<close>

definition entry_of_reference :: "Reference \<Rightarrow> entry" where
  "entry_of_reference ref =
     fold (\<lambda>(k, v) d. dict_set k v d) (fields_map ref)
       [(''ID'', key ref), (''ENTRYTYPE'', entry_type ref)]"

definition write_bibtex_file ::
  "(entry list \<Rightarrow> 't) \<Rightarrow> Reference list \<Rightarrow> string \<Rightarrow> (string \<rightharpoonup> 't) \<Rightarrow> (string \<rightharpoonup> 't)" where
  "write_bibtex_file dump refs path fs = fs(path \<mapsto> dump (map entry_of_reference refs))"

text \<open>What the round trip is to preserve of a Reference.\<close>

definition triple :: "Reference \<Rightarrow> string \<times> string \<times> (string \<rightharpoonup> string)" where
  "triple r = (key r, entry_type r, map_of (fields_map r))"

definition entry_triple :: "(string \<rightharpoonup> string) \<Rightarrow> string \<times> string \<times> (string \<rightharpoonup> string)" where
  "entry_triple m = (the (m ''ID''), the (m ''ENTRYTYPE''), m(''ID'' := None, ''ENTRYTYPE'' := None))"

section \<open>Projects and attached files (models.py, file\_manager.py)\<close>

text \<open>
  A project maps keys to Reference objects. The field \<open>file_path\<close> of \<open>Project\<close> is named
  \<open>project_file_path\<close> here. Path arithmetic (\<open>pathlib\<close>) is the parameter
  \<open>joinpath\<close>; \<open>shutil.copy2\<close> copies the content of the source path and fails when there
  is none.
\<close>

record Project =
  name :: string
  references :: "addr dict"
  project_file_path :: "string option"

record FileManager =
  base_dir :: string

record 't world =
  store :: heap
  files :: "string \<rightharpoonup> 't"


definition get_reference :: "Project \<Rightarrow> string \<Rightarrow> addr option" where
  "get_reference self k = dict_get (references self) k"

definition add_reference_file ::
  "(string \<Rightarrow> string \<Rightarrow> string) \<Rightarrow> FileManager \<Rightarrow> Project \<Rightarrow> addr \<Rightarrow> string \<Rightarrow> 't world \<Rightarrow>
     error + 't world" where
  "add_reference_file joinpath self project reference path w =
     (let project_dir = joinpath (base_dir self) (name project) in
      bind (get_standardized_filename (store w ! reference)) (\<lambda>std_filename.
        let dest_path = joinpath project_dir std_filename in
        case files w path of
          None \<Rightarrow> Inl (IOError path)
        | Some content \<Rightarrow>
            Inr (w\<lparr>files := (files w)(dest_path \<mapsto> content),
                   store := (store w)[reference := (store w ! reference)\<lparr>file_path := Some dest_path\<rparr>]\<rparr>)))"

section \<open>Importing into a project (reference\_manager/project\_manager.py)\<close>










section \<open>Lemmas on duplicate resolution\<close>

subsection \<open>The key map\<close>

lemma key_map_append_map_of:
  "map_of (key_map_append k a m) k' =
     (if k' = k then Some ((case map_of m k of None \<Rightarrow> [] | Some v \<Rightarrow> v) @ [a]) else map_of m k')"
  by (induction m) auto

lemma key_map_append_fst:
  "map fst (key_map_append k a m) = (if k \<in> set (map fst m) then map fst m else map fst m @ [k])"
  by (induction m) (auto simp: rev_image_eqI)

lemma key_map_append_distinct:
  "distinct (map fst m) \<Longrightarrow> distinct (map fst (key_map_append k a m))"
  by (simp add: key_map_append_fst)

lemma key_map_of_snoc:
  "key_map_of h (as @ [a]) = key_map_append (key (h ! a)) a (key_map_of h as)"
  by (simp add: key_map_of_def)

lemma key_map_of_distinct: "distinct (map fst (key_map_of h as))"
proof (induction as rule: rev_induct)
  case Nil
  show ?case by (simp add: key_map_of_def)
next
  case (snoc a as)
  then show ?case by (simp add: key_map_of_snoc key_map_append_distinct)
qed

lemma filter_key_empty:
  "k \<notin> (\<lambda>a. key (h ! a)) ` set as \<Longrightarrow> filter (\<lambda>a. key (h ! a) = k) as = []"
  by (induction as) auto

lemma key_map_of_lookup:
  "map_of (key_map_of h as) k =
     (if k \<in> (\<lambda>a. key (h ! a)) ` set as then Some (filter (\<lambda>a. key (h ! a) = k) as) else None)"
proof (induction as arbitrary: k rule: rev_induct)
  case Nil
  show ?case by (simp add: key_map_of_def)
next
  case (snoc a as)
  show ?case
  proof (cases "k = key (h ! a)")
    case True
    then show ?thesis
      by (simp add: key_map_of_snoc key_map_append_map_of snoc filter_key_empty)
  next
    case False
    then show ?thesis
      by (auto simp add: key_map_of_snoc key_map_append_map_of snoc)
  qed
qed

subsection \<open>The renaming loops\<close>

lemma rename_duplicate_length [simp]: "length (rename_duplicate k ia h) = length h"
  by (cases ia) (simp add: rename_duplicate_def Let_def)

lemma rename_duplicate_other:
  "b \<noteq> a \<Longrightarrow> rename_duplicate k (i, a) h ! b = h ! b"
  by (simp add: rename_duplicate_def Let_def)

lemma rename_duplicate_same:
  "a < length h \<Longrightarrow>
   rename_duplicate k (i, a) h ! a = (if i > 0 then renamed k i (h ! a) else h ! a)"
  by (simp add: rename_duplicate_def Let_def renamed_def)

lemma fold_rename_length [simp]:
  "length (fold (rename_duplicate k) ias h) = length h"
  by (induction ias arbitrary: h) simp_all

lemma fold_rename_other:
  "a \<notin> set v \<Longrightarrow> fold (rename_duplicate k) (enumerate n v) h ! a = h ! a"
  by (induction v arbitrary: n h) (simp_all add: rename_duplicate_other)

lemma fold_rename_at:
  "distinct (pre @ a # post) \<Longrightarrow> a < length h \<Longrightarrow>
   fold (rename_duplicate k) (enumerate n (pre @ a # post)) h ! a =
     (if n + length pre > 0 then renamed k (n + length pre) (h ! a) else h ! a)"
proof (induction pre arbitrary: n h)
  case Nil
  then show ?case by (simp add: fold_rename_other rename_duplicate_same)
next
  case (Cons b pre)
  from Cons.prems have ne: "a \<noteq> b" by auto
  have "fold (rename_duplicate k) (enumerate n ((b # pre) @ a # post)) h ! a =
        fold (rename_duplicate k) (enumerate (Suc n) (pre @ a # post)) (rename_duplicate k (n, b) h) ! a"
    by simp
  also have "\<dots> = (if Suc n + length pre > 0
                    then renamed k (Suc n + length pre) (rename_duplicate k (n, b) h ! a)
                    else rename_duplicate k (n, b) h ! a)"
    using Cons.prems by (intro Cons.IH) simp_all
  finally show ?case using ne by (simp add: rename_duplicate_other)
qed

lemma resolve_group_length [simp]: "length (resolve_group g h) = length h"
  by (cases g) (simp add: resolve_group_def)

lemma fold_resolve_group_length [simp]: "length (fold resolve_group gs h) = length h"
  by (induction gs arbitrary: h) simp_all

lemma resolve_group_other:
  "a \<notin> set (snd g) \<Longrightarrow> resolve_group g h ! a = h ! a"
  by (cases g) (simp add: resolve_group_def fold_rename_other)

lemma fold_resolve_group_other:
  "a \<notin> set (concat (map snd gs)) \<Longrightarrow> fold resolve_group gs h ! a = h ! a"
  by (induction gs arbitrary: h) (simp_all add: resolve_group_other)

lemma fold_resolve_group_at:
  "distinct (concat (map snd gs)) \<Longrightarrow> (k, pre @ a # post) \<in> set gs \<Longrightarrow> a < length h \<Longrightarrow>
   fold resolve_group gs h ! a =
     (if length pre > 0 then renamed k (length pre) (h ! a) else h ! a)"
proof (induction gs arbitrary: h)
  case Nil
  then show ?case by simp
next
  case (Cons g gs)
  show ?case
  proof (cases "g = (k, pre @ a # post)")
    case True
    with Cons.prems have "a \<notin> set (concat (map snd gs))" and d: "distinct (pre @ a # post)"
      by auto
    then have "fold resolve_group (g # gs) h ! a = resolve_group g h ! a"
      by (simp add: fold_resolve_group_other)
    also have "\<dots> = (if length pre > 0 then renamed k (length pre) (h ! a) else h ! a)"
      using fold_rename_at [OF d Cons.prems(3), of k 0] True by (simp add: resolve_group_def)
    finally show ?thesis .
  next
    case False
    with Cons.prems have mem: "(k, pre @ a # post) \<in> set gs" by simp
    then have "a \<in> set (concat (map snd gs))" by force
    with Cons.prems have "a \<notin> set (snd g)" by auto
    then have same: "resolve_group g h ! a = h ! a" by (rule resolve_group_other)
    have "fold resolve_group gs (resolve_group g h) ! a =
          (if length pre > 0 then renamed k (length pre) (resolve_group g h ! a)
           else resolve_group g h ! a)"
      using Cons.prems mem by (intro Cons.IH) simp_all
    then show ?thesis by (simp add: same)
  qed
qed

subsection \<open>The resolver on a list of distinct objects\<close>

lemma key_map_of_entry:
  "(k, v) \<in> set (key_map_of h as) \<Longrightarrow> v = filter (\<lambda>a. key (h ! a) = k) as"
proof -
  assume "(k, v) \<in> set (key_map_of h as)"
  then have "map_of (key_map_of h as) k = Some v"
    using key_map_of_distinct by simp
  then show ?thesis by (simp add: key_map_of_lookup split: if_splits)
qed

lemma find_duplicate_keys_entry:
  "(k, v) \<in> set (find_duplicate_keys h as) \<Longrightarrow>
     v = filter (\<lambda>a. key (h ! a) = k) as \<and> length v > 1"
  by (auto simp: find_duplicate_keys_def dest: key_map_of_entry)

lemma find_duplicate_keys_mem:
  assumes "length (filter (\<lambda>a. key (h ! a) = k) as) > 1"
  shows "(k, filter (\<lambda>a. key (h ! a) = k) as) \<in> set (find_duplicate_keys h as)"
proof -
  from assms have "filter (\<lambda>a. key (h ! a) = k) as \<noteq> []" by auto
  then have "k \<in> (\<lambda>a. key (h ! a)) ` set as" using filter_key_empty by blast
  then have "map_of (key_map_of h as) k = Some (filter (\<lambda>a. key (h ! a) = k) as)"
    by (simp add: key_map_of_lookup)
  then have "(k, filter (\<lambda>a. key (h ! a) = k) as) \<in> set (key_map_of h as)"
    by (rule map_of_SomeD)
  with assms show ?thesis by (simp add: find_duplicate_keys_def)
qed

lemma distinct_concat_groups:
  "distinct (map fst m) \<Longrightarrow> \<forall>(k, v) \<in> set m. distinct v \<and> (\<forall>a \<in> set v. f a = k) \<Longrightarrow>
   distinct (concat (map snd m))"
proof (induction m)
  case Nil
  then show ?case by simp
next
  case (Cons g m)
  obtain k v where g: "g = (k, v)" by (cases g)
  have "set v \<inter> set (concat (map snd m)) = {}"
  proof (rule ccontr)
    assume "set v \<inter> set (concat (map snd m)) \<noteq> {}"
    then obtain a k' v' where "a \<in> set v" "(k', v') \<in> set m" "a \<in> set v'" by fastforce
    with Cons.prems(2) g have "f a = k" "f a = k'" by fastforce+
    with \<open>(k', v') \<in> set m\<close> Cons.prems(1) g show False by force
  qed
  with Cons g show ?case by auto
qed

lemma find_duplicate_keys_distinct:
  assumes "distinct as"
  shows "distinct (concat (map snd (find_duplicate_keys h as)))"
proof (rule distinct_concat_groups [where f = "\<lambda>a. key (h ! a)"])
  show "distinct (map fst (find_duplicate_keys h as))"
    unfolding find_duplicate_keys_def by (rule distinct_map_filter) (rule key_map_of_distinct)
  show "\<forall>(k, v) \<in> set (find_duplicate_keys h as). distinct v \<and> (\<forall>a \<in> set v. key (h ! a) = k)"
    using assms by (auto dest!: find_duplicate_keys_entry)
qed

lemma resolve_duplicate_keys_fst [simp]: "fst (resolve_duplicate_keys as h) = as"
  by (simp add: resolve_duplicate_keys_def Let_def)

lemma resolve_duplicate_keys_length [simp]: "length (snd (resolve_duplicate_keys as h)) = length h"
  by (simp add: resolve_duplicate_keys_def Let_def)

lemma resolve_heap_other:
  assumes "a \<notin> set as"
  shows "snd (resolve_duplicate_keys as h) ! a = h ! a"
proof -
  have "a \<notin> set (concat (map snd (find_duplicate_keys h as)))"
    using assms by (auto dest!: find_duplicate_keys_entry)
  then show ?thesis
    by (simp add: resolve_duplicate_keys_def Let_def fold_resolve_group_other)
qed

lemma resolve_heap_at:
  assumes d: "distinct (pre @ a # post)" and a: "a < length h"
  shows "snd (resolve_duplicate_keys (pre @ a # post) h) ! a =
     (if filter (\<lambda>b. key (h ! b) = key (h ! a)) pre \<noteq> []
      then renamed (key (h ! a)) (length (filter (\<lambda>b. key (h ! b) = key (h ! a)) pre)) (h ! a)
      else h ! a)"
proof -
  let ?as = "pre @ a # post"
  let ?P = "\<lambda>b. key (h ! b) = key (h ! a)"
  let ?gs = "find_duplicate_keys h ?as"
  have split: "filter ?P ?as = filter ?P pre @ a # filter ?P post" by simp
  have dist: "distinct (concat (map snd ?gs))" using d by (rule find_duplicate_keys_distinct)
  show ?thesis
  proof (cases "length (filter ?P ?as) > 1")
    case True
    then have "(key (h ! a), filter ?P pre @ a # filter ?P post) \<in> set ?gs"
      using find_duplicate_keys_mem [of h "key (h ! a)" ?as] by (simp only: split)
    from fold_resolve_group_at [OF dist this a]
    show ?thesis by (simp add: resolve_duplicate_keys_def Let_def)
  next
    case False
    then have empty: "filter ?P pre = []" by (simp add: split)
    have "a \<notin> set (concat (map snd ?gs))"
    proof
      assume "a \<in> set (concat (map snd ?gs))"
      then obtain k v where kv: "(k, v) \<in> set ?gs" and "a \<in> set v" by auto
      from find_duplicate_keys_entry [OF kv]
      have v: "v = filter (\<lambda>b. key (h ! b) = k) ?as" and len: "length v > 1" by blast+
      from \<open>a \<in> set v\<close> have "a \<in> {b \<in> set ?as. key (h ! b) = k}"
        unfolding v by (simp only: set_filter)
      then have "key (h ! a) = k" by blast
      with v have "v = filter ?P ?as" by blast
      with len False show False by blast
    qed
    then show ?thesis
      by (simp add: resolve_duplicate_keys_def Let_def fold_resolve_group_other empty)
  qed
qed

subsection \<open>The resolver on values\<close>

lemma resolved_values_eq: "resolved_values rs = snd (resolve_duplicate_keys [0..<length rs] rs)"
proof -
  obtain refs h where eq: "resolve_duplicate_keys [0..<length rs] rs = (refs, h)"
    by (cases "resolve_duplicate_keys [0..<length rs] rs")
  then have "refs = [0..<length rs]" and "length h = length rs"
    using resolve_duplicate_keys_fst [of "[0..<length rs]" rs]
      resolve_duplicate_keys_length [of "[0..<length rs]" rs] by simp_all
  then have "map (\<lambda>a. h ! a) refs = h" using map_nth [of h] by simp
  with eq show ?thesis by (simp add: resolved_values_def)
qed

lemma resolved_values_length [simp]: "length (resolved_values rs) = length rs"
  by (simp add: resolved_values_eq)

lemma take_as_indices: "p \<le> length rs \<Longrightarrow> take p rs = map (\<lambda>b. rs ! b) [0..<p]"
  by (rule nth_equalityI) simp_all

lemma filter_take_indices:
  "p \<le> length rs \<Longrightarrow>
   length (filter (\<lambda>b. key (rs ! b) = k) [0..<p]) = length (filter (\<lambda>r. key r = k) (take p rs))"
  by (simp add: take_as_indices comp_def)

lemma upt_split_at: "p < n \<Longrightarrow> [0..<n] = [0..<p] @ p # [Suc p..<n]"
proof -
  assume "p < n"
  then have "[0..<p + (n - p)] = [0..<p] @ [p..<p + (n - p)]"
    by (intro upt_add_eq_append) simp
  with \<open>p < n\<close> show ?thesis by (simp add: upt_conv_Cons)
qed

lemma resolved_values_nth:
  assumes p: "p < length rs"
  shows "resolved_values rs ! p =
     (if occurrences_before rs p = 0 then rs ! p
      else renamed (key (rs ! p)) (occurrences_before rs p) (rs ! p))"
proof -
  have upt: "[0..<length rs] = [0..<p] @ p # [Suc p..<length rs]"
    using p by (rule upt_split_at)
  have d: "distinct ([0..<p] @ p # [Suc p..<length rs])"
    unfolding upt [symmetric] by simp
  have occ: "length (filter (\<lambda>b. key (rs ! b) = key (rs ! p)) [0..<p]) = occurrences_before rs p"
    using p by (simp add: occurrences_before_def filter_take_indices)
  have "snd (resolve_duplicate_keys [0..<length rs] rs) ! p =
     (if filter (\<lambda>b. key (rs ! b) = key (rs ! p)) [0..<p] \<noteq> []
      then renamed (key (rs ! p)) (length (filter (\<lambda>b. key (rs ! b) = key (rs ! p)) [0..<p])) (rs ! p)
      else rs ! p)"
    using resolve_heap_at [OF d p] by (simp only: upt [symmetric])
  then show ?thesis
    unfolding resolved_values_eq occ [symmetric] by auto
qed

lemma occurrences_before_same_key:
  assumes "\<forall>r \<in> set rs. key r = k" "p < length rs"
  shows "occurrences_before rs p = p"
proof -
  have "\<forall>r \<in> set (take p rs). key r = key (rs ! p)"
    using assms by (metis in_set_takeD nth_mem)
  then have "filter (\<lambda>r. key r = key (rs ! p)) (take p rs) = take p rs"
    by (simp add: filter_id_conv)
  with assms(2) show ?thesis by (simp add: occurrences_before_def)
qed

lemma occurrences_before_distinct:
  assumes "distinct (map key rs)" "p < length rs"
  shows "occurrences_before rs p = 0"
proof -
  have "\<forall>r \<in> set (take p rs). key r \<noteq> key (rs ! p)"
  proof
    fix r assume "r \<in> set (take p rs)"
    then obtain q where q: "q < p" "r = rs ! q"
      using assms(2) by (auto simp: in_set_conv_nth)
    with assms have "(map key rs ! q = map key rs ! p) = (q = p)"
      by (intro nth_eq_iff_index_eq) simp_all
    with q assms(2) show "key r \<noteq> key (rs ! p)" by simp
  qed
  then show ?thesis by (simp add: occurrences_before_def filter_empty_conv)
qed

lemma str_nat_digits:
  "str_nat 0 = ''0''" "str_nat 1 = ''1''" "str_nat 2 = ''2''" "str_nat 3 = ''3''" "str_nat 10 = ''10''"
  by code_simp+

lemma str_nat_Suc0: "str_nat (Suc 0) = ''1''" "str_nat (Suc (Suc 0)) = ''2''"
  by code_simp+

lemma length_le_one_if_all_equal:
  assumes "distinct xs" and eq: "\<forall>x \<in> set xs. \<forall>y \<in> set xs. x = y"
  shows "length xs \<le> 1"
proof (cases xs)
  case Nil
  then show ?thesis by simp
next
  case outer: (Cons a list)
  show ?thesis
  proof (cases list)
    case Nil
    with outer show ?thesis by simp
  next
    case (Cons b l)
    with outer have "a \<in> set xs" "b \<in> set xs" by simp_all
    with eq have "a = b" by blast
    moreover from assms(1) outer Cons have "a \<noteq> b" by simp
    ultimately show ?thesis by blast
  qed
qed

section \<open>Lemmas on strings, entries and files\<close>

lemma author_year_examples:
  "get_formatted_author_year (with_fields [(''author'', ''Smith, J. and Doe, A.''), (''year'', ''2020'')])
     = Inr ''Smith and Doe (2020)''"
  "get_formatted_author_year (with_fields [(''author'', ''Smith, J. and Doe, A. and Lee, B.''), (''year'', ''2020'')])
     = Inr ''Smith et al. (2020)''"
  "get_formatted_author_year (with_fields [(''author'', ''Smith, J.''), (''year'', ''2020'')])
     = Inr ''Smith (2020)''"
  "get_formatted_author_year (with_fields []) = Inr ''Unknown (n.d.)''"
  by code_simp+

lemma filename_example:
  "get_standardized_filename
     (with_fields [(''author'', ''Doe, J.''), (''year'', ''2021''), (''title'', ''A Study of Things!!'')])
     = Inr ''Doe_2021_A_Study_of.pdf''"
  by code_simp

lemma join_concat: "join sep (x # xs) = x @ concat (map (\<lambda>y. sep @ y) xs)"
  by (induction xs arbitrary: x) simp_all

lemma fold_append_lines:
  "fold (\<lambda>x acc. acc @ g x) xs acc = acc @ concat (map g xs)"
  by (induction xs arbitrary: acc) simp_all

lemma map_of_dict_set: "map_of (dict_set k v d) = (map_of d)(k \<mapsto> v)"
  by (induction d) (auto simp: fun_eq_iff)

lemma map_of_dict_del: "map_of (dict_del k d) = (map_of d)(k := None)"
  by (induction d) (auto simp: dict_del_def fun_eq_iff)

lemma map_of_fold_dict_set:
  "distinct (map fst fs) \<Longrightarrow>
   map_of (fold (\<lambda>(k, v) d. dict_set k v d) fs d0) = map_of d0 ++ map_of fs"
proof (induction fs arbitrary: d0)
  case Nil
  then show ?case by simp
next
  case (Cons x fs)
  obtain k v where x: "x = (k, v)" by (cases x)
  from Cons.prems x have notin: "k \<notin> dom (map_of fs)"
    by (simp add: dom_map_of_conv_image_fst)
  have "map_of (fold (\<lambda>(k, v) d. dict_set k v d) (x # fs) d0) = (map_of d0)(k \<mapsto> v) ++ map_of fs"
    using Cons x by (simp add: map_of_dict_set)
  also have "\<dots> = map_of d0 ++ map_of (x # fs)"
    using notin x by (auto simp: fun_eq_iff map_add_def split: option.splits)
  finally show ?case .
qed

lemma map_of_entry_of_reference:
  assumes "distinct (map fst (fields_map r))"
    and "''ID'' \<notin> fst ` set (fields_map r)" and "''ENTRYTYPE'' \<notin> fst ` set (fields_map r)"
  shows "entry_triple (map_of (entry_of_reference r)) = triple r"
proof -
  have none: "map_of (fields_map r) ''ID'' = None" "map_of (fields_map r) ''ENTRYTYPE'' = None"
    using assms(2,3) by (simp_all add: map_of_eq_None_iff)
  have m: "map_of (entry_of_reference r) =
        map_of [(''ID'', key r), (''ENTRYTYPE'', entry_type r)] ++ map_of (fields_map r)"
    using map_of_fold_dict_set [OF assms(1), of "[(''ID'', key r), (''ENTRYTYPE'', entry_type r)]"]
    by (simp only: entry_of_reference_def)
  have "(map_of (entry_of_reference r))(''ID'' := None, ''ENTRYTYPE'' := None) = map_of (fields_map r)"
    using none by (auto simp: m fun_eq_iff map_add_def split: option.splits)
  moreover have "map_of (entry_of_reference r) ''ID'' = Some (key r)"
    "map_of (entry_of_reference r) ''ENTRYTYPE'' = Some (entry_type r)"
    using none by (simp_all add: m map_add_def)
  ultimately show ?thesis by (simp add: entry_triple_def triple_def)
qed

lemma reference_of_entry_triple:
  assumes "map_of e ''ID'' = Some k" "map_of e ''ENTRYTYPE'' = Some t"
  shows "\<exists>r. reference_of_entry path e = Inr r \<and> triple r = entry_triple (map_of e) \<and>
             file_path r = Some path"
  using assms
  by (simp add: reference_of_entry_def dict_pop_def bind_def map_of_dict_del triple_def
        entry_triple_def)

lemma map_result_all_ok:
  "\<forall>x \<in> set xs. \<exists>y. f x = Inr y \<and> P x y \<Longrightarrow>
   \<exists>ys. map_result f xs = Inr ys \<and> list_all2 P xs ys"
  by (induction xs) (auto simp: bind_def)

lemma map_result_Inr:
  "map_result f xs = Inr ys \<Longrightarrow> list_all2 (\<lambda>x y. f x = Inr y) xs ys"
  by (induction xs arbitrary: ys) (auto simp: bind_def split: sum.splits)

lemma reference_of_entry_file_path:
  "reference_of_entry path e = Inr r \<Longrightarrow> file_path r = Some path"
  by (auto simp: reference_of_entry_def dict_pop_def bind_def split: option.splits)

section \<open>Lemmas on importing\<close>
























section \<open>Theorems\<close>

text \<open>
  C1: on a sequence of separate References, the element at position p is unchanged when no
  earlier element carries its key (the first occurrence of a duplicated key, and every
  non-duplicated Reference); otherwise, with i the number of earlier elements carrying its
  key, its key becomes the old key followed by an underscore and i in decimal, and its
  original\_key becomes the old key. In particular n >= 2 References that all carry key k
  come out with keys k, k\_1, ..., k\_(n-1) in order, and each renamed one has
  original\_key k.
\<close>

theorem resolve_duplicate_keys_renames:
  "length (resolved_values rs) = length rs \<and>
   (\<forall>p < length rs.
      resolved_values rs ! p =
        (if occurrences_before rs p = 0 then rs ! p
         else (rs ! p)\<lparr>original_key := Some (key (rs ! p)),
                        key := key (rs ! p) @ ''_'' @ str_nat (occurrences_before rs p)\<rparr>)) \<and>
   (2 \<le> length rs \<and> (\<forall>r \<in> set rs. key r = k) \<longrightarrow>
      map key (resolved_values rs) = k # map (\<lambda>i. k @ ''_'' @ str_nat i) [1..<length rs] \<and>
      (\<forall>p. 0 < p \<and> p < length rs \<longrightarrow> original_key (resolved_values rs ! p) = Some k))"
proof (intro conjI allI impI)
  show "length (resolved_values rs) = length rs" by simp
next
  fix p assume "p < length rs"
  then show "resolved_values rs ! p =
        (if occurrences_before rs p = 0 then rs ! p
         else (rs ! p)\<lparr>original_key := Some (key (rs ! p)),
                        key := key (rs ! p) @ ''_'' @ str_nat (occurrences_before rs p)\<rparr>)"
    by (simp add: resolved_values_nth renamed_def)
next
  assume a: "2 \<le> length rs \<and> (\<forall>r \<in> set rs. key r = k)"
  have nth: "key (resolved_values rs ! p) = (if p = 0 then k else k @ ''_'' @ str_nat p)"
    if "p < length rs" for p
  proof -
    from that a have kk: "key (rs ! p) = k" by auto
    from that a have occ: "occurrences_before rs p = p"
      by (intro occurrences_before_same_key [where k = k]) simp_all
    have eq: "resolved_values rs ! p = (if p = 0 then rs ! p else renamed k p (rs ! p))"
      using resolved_values_nth [OF that] by (simp only: occ kk)
    show ?thesis unfolding eq using kk by (auto simp: renamed_def)
  qed
  show "map key (resolved_values rs) = k # map (\<lambda>i. k @ ''_'' @ str_nat i) [1..<length rs]"
  proof (rule nth_equalityI)
    show "length (map key (resolved_values rs)) =
          length (k # map (\<lambda>i. k @ ''_'' @ str_nat i) [1..<length rs])"
      using a by auto
  next
    fix p assume "p < length (map key (resolved_values rs))"
    then have p: "p < length rs" by simp
    then show "map key (resolved_values rs) ! p =
               (k # map (\<lambda>i. k @ ''_'' @ str_nat i) [1..<length rs]) ! p"
    proof (cases p)
      case 0
      with p show ?thesis by (simp add: nth)
    next
      case (Suc q)
      with p have "[1..<length rs] ! q = Suc q"
        using nth_upt [of 1 q "length rs"] by simp
      with p Suc show ?thesis by (simp add: nth)
    qed
  qed
next
  fix p
  assume a: "2 \<le> length rs \<and> (\<forall>r \<in> set rs. key r = k)" and p: "0 < p \<and> p < length rs"
  moreover from a p have "key (rs ! p) = k" by auto
  ultimately show "original_key (resolved_values rs ! p) = Some k"
    by (simp add: resolved_values_nth renamed_def occurrences_before_same_key [where k = k])
qed

theorem resolve_duplicate_keys_renames_witness:
  "resolved_values [mk_ref ''k'', mk_ref ''x'', mk_ref ''k'', mk_ref ''k''] ! 3 =
     (mk_ref ''k'')\<lparr>original_key := Some ''k'', key := ''k_2''\<rparr> \<and>
   map key (resolved_values [mk_ref ''k'', mk_ref ''k'', mk_ref ''k'']) = [''k'', ''k_1'', ''k_2''] \<and>
   original_key (resolved_values [mk_ref ''k'', mk_ref ''k'', mk_ref ''k''] ! 2) = Some ''k''"
proof -
  have occ: "occurrences_before [mk_ref ''k'', mk_ref ''x'', mk_ref ''k'', mk_ref ''k''] 3 = 2"
    by (simp add: occurrences_before_def mk_ref_def numeral_3_eq_3)
  have upt: "[1..<3] = [1, 2]" by (simp add: upt_rec)
  let ?rs = "[mk_ref ''k'', mk_ref ''x'', mk_ref ''k'', mk_ref ''k'']"
  let ?ks = "[mk_ref ''k'', mk_ref ''k'', mk_ref ''k'']"
  have l3: "3 < length ?rs" by simp
  have "resolved_values ?rs ! 3 =
      (?rs ! 3)\<lparr>original_key := Some (key (?rs ! 3)), key := key (?rs ! 3) @ ''_'' @ str_nat 2\<rparr>"
    using resolve_duplicate_keys_renames [of ?rs "''k''", THEN conjunct2, THEN conjunct1, rule_format, OF l3]
    by (simp only: occ) simp
  then have "resolved_values ?rs ! 3 = (mk_ref ''k'')\<lparr>original_key := Some ''k'', key := ''k_2''\<rparr>"
    by (simp add: str_nat_digits mk_ref_def)
  moreover have pre: "2 \<le> length ?ks \<and> (\<forall>r \<in> set ?ks. key r = ''k'')"
    by (simp add: mk_ref_def)
  have "map key (resolved_values ?ks) = [''k'', ''k_1'', ''k_2''] \<and>
    original_key (resolved_values ?ks ! 2) = Some ''k''"
    using resolve_duplicate_keys_renames [of ?ks "''k''", THEN conjunct2, THEN conjunct2, rule_format, OF pre]
    by (simp add: upt str_nat_digits str_nat_Suc0)
  ultimately show ?thesis by blast
qed


text \<open>
  C7: a sequence of separate References in which no two share a key has no duplicate set,
  and resolution returns it unchanged (same keys, same original\_key values, same order).
\<close>

theorem resolve_unique_keys_unchanged:
  assumes "distinct (map key rs)"
  shows "resolved_values rs = rs \<and> find_duplicate_keys rs [0..<length rs] = []"
proof
  show "resolved_values rs = rs"
    by (rule nth_equalityI) (simp_all add: resolved_values_nth occurrences_before_distinct [OF assms])
next
  show "find_duplicate_keys rs [0..<length rs] = []"
  proof (rule ccontr)
    assume "find_duplicate_keys rs [0..<length rs] \<noteq> []"
    then obtain k v where "(k, v) \<in> set (find_duplicate_keys rs [0..<length rs])"
      by (cases "find_duplicate_keys rs [0..<length rs]") auto
    from find_duplicate_keys_entry [OF this]
    have v: "v = filter (\<lambda>a. key (rs ! a) = k) [0..<length rs]" and len: "length v > 1" by blast+
    have "distinct v" unfolding v by simp
    moreover have "\<forall>x \<in> set v. \<forall>y \<in> set v. x = y"
    proof (intro ballI)
      fix x y assume "x \<in> set v" "y \<in> set v"
      then have "x < length rs" "y < length rs" "key (rs ! x) = key (rs ! y)"
        unfolding v by simp_all
      with assms nth_eq_iff_index_eq [of "map key rs" x y] show "x = y" by simp
    qed
    ultimately have "length v \<le> 1" by (rule length_le_one_if_all_equal)
    with len show False by simp
  qed
qed

theorem resolve_unique_keys_unchanged_witness:
  "resolved_values [mk_ref ''a'', mk_ref ''b''] = [mk_ref ''a'', mk_ref ''b''] \<and>
   find_duplicate_keys [mk_ref ''a'', mk_ref ''b''] [0..<length [mk_ref ''a'', mk_ref ''b'']] = []"
  using resolve_unique_keys_unchanged [of "[mk_ref ''a'', mk_ref ''b'']"]
  by (simp add: mk_ref_def)

text \<open>
  C10: a single pass of duplicate resolution does not make the keys unique. For three
  separate references with keys k, k, k\_1 (in that order) the result has keys
  k, k\_1, k\_1: the renamed second entry collides with the third.
\<close>

theorem resolve_not_unique:
  "map key (resolved_values [mk_ref ''k'', mk_ref ''k'', mk_ref ''k_1'']) = [''k'', ''k_1'', ''k_1'']
   \<and> \<not> distinct (map key (resolved_values [mk_ref ''k'', mk_ref ''k'', mk_ref ''k_1'']))"
  by code_simp

text \<open>
  C8: for the five styles cite, citep, citet, footcite and textcite the formatter returns
  a backslash, the style, and the key in braces; for every other style string it returns
  the cite macro, and it never fails. For a list the braces hold the keys in the order
  given, the first key as it is and every later key preceded by a comma (for the empty
  list nothing). With key smith2020 and style citep the result is the citep macro of
  smith2020, an unknown style gives its cite macro, and the keys a, b, c with style citep
  give the citep macro of \<open>a,b,c\<close>.
\<close>

theorem format_citation_macro:
  "format_citation r style =
     (if style \<in> {''cite'', ''citep'', ''citet'', ''footcite'', ''textcite''}
      then backslash # style @ ''{'' @ key r @ ''}''
      else backslash # ''cite{'' @ key r @ ''}'') \<and>
   format_multiple_citations rs style =
     (if style \<in> {''cite'', ''citep'', ''citet'', ''footcite'', ''textcite''}
      then backslash # style @ ''{'' @ join '','' (map key rs) @ ''}''
      else backslash # ''cite{'' @ join '','' (map key rs) @ ''}'') \<and>
   format_multiple_citations rs style =
     backslash #
     (if style \<in> {''cite'', ''citep'', ''citet'', ''footcite'', ''textcite''} then style else ''cite'') @
     ''{'' @
     (case map key rs of [] \<Rightarrow> [] | k # ks \<Rightarrow> k @ concat (map (\<lambda>k'. CHR '','' # k') ks)) @
     ''}'' \<and>
   format_citation (mk_ref ''smith2020'') ''citep'' =
     [CHR 0x5C] @ ''citep{smith2020}'' \<and>
   format_citation (mk_ref ''smith2020'') ''parencite'' =
     [CHR 0x5C] @ ''cite{smith2020}'' \<and>
   format_multiple_citations [mk_ref ''a'', mk_ref ''b'', mk_ref ''c''] ''citep'' =
     [CHR 0x5C] @ ''citep{a,b,c}'' \<and>
   format_multiple_citations [mk_ref ''a'', mk_ref ''b''] ''unknown'' =
     [CHR 0x5C] @ ''cite{a,b}'' \<and>
   format_multiple_citations [] ''citet'' = [CHR 0x5C] @ ''citet{}''"
proof -
  have j: "join '','' (map key rs) =
      (case map key rs of [] \<Rightarrow> [] | k # ks \<Rightarrow> k @ concat (map (\<lambda>k'. CHR '','' # k') ks))"
    by (cases "map key rs") (simp_all add: join_concat)
  have gen: "format_multiple_citations rs style =
     (if style \<in> {''cite'', ''citep'', ''citet'', ''footcite'', ''textcite''}
      then backslash # style @ ''{'' @ join '','' (map key rs) @ ''}''
      else backslash # ''cite{'' @ join '','' (map key rs) @ ''}'')"
    by (simp add: format_multiple_citations_def)
  have gen': "format_multiple_citations rs style =
     backslash #
     (if style \<in> {''cite'', ''citep'', ''citet'', ''footcite'', ''textcite''} then style else ''cite'') @
     ''{'' @
     (case map key rs of [] \<Rightarrow> [] | k # ks \<Rightarrow> k @ concat (map (\<lambda>k'. CHR '','' # k') ks)) @
     ''}''"
    unfolding gen j [symmetric] by simp
  have one: "format_citation r style =
     (if style \<in> {''cite'', ''citep'', ''citet'', ''footcite'', ''textcite''}
      then backslash # style @ ''{'' @ key r @ ''}''
      else backslash # ''cite{'' @ key r @ ''}'')"
    by (simp add: format_citation_def)
  have inst: "format_citation (mk_ref ''smith2020'') ''citep'' = [CHR 0x5C] @ ''citep{smith2020}''"
    "format_citation (mk_ref ''smith2020'') ''parencite'' = [CHR 0x5C] @ ''cite{smith2020}''"
    "format_multiple_citations [mk_ref ''a'', mk_ref ''b'', mk_ref ''c''] ''citep'' = [CHR 0x5C] @ ''citep{a,b,c}''"
    "format_multiple_citations [mk_ref ''a'', mk_ref ''b''] ''unknown'' = [CHR 0x5C] @ ''cite{a,b}''"
    "format_multiple_citations [] ''citet'' = [CHR 0x5C] @ ''citet{}''"
    by (simp_all add: format_citation_def format_multiple_citations_def mk_ref_def backslash_def)
  from one gen gen' inst show ?thesis by (intro conjI)
qed

text \<open>
  C5 (as amended): the single-entry rendering is one block: an at-sign, the entry\_type in
  lower case, an opening brace, the key, a comma and a newline; then for each field, in
  the order of the dict, two spaces, the name, \<open> = {\<close>, the value, \<open>},\<close> and a
  newline; then a closing brace.
\<close>

theorem format_bibtex_entry_lowercases:
  "format_bibtex_entry r =
     ''@'' @ lower (entry_type r) @ ''{'' @ key r @ '','' @ [newline] @
     concat (map (\<lambda>(field, value). ''  '' @ field @ '' = {'' @ value @ ''},'' @ [newline]) (fields_map r)) @
     ''}''"
proof -
  have "(\<lambda>(field, value) entry. entry @ ''  '' @ field @ '' = {'' @ value @ ''},'' @ [newline]) =
        (\<lambda>x acc. acc @ (\<lambda>(field, value). ''  '' @ field @ '' = {'' @ value @ ''},'' @ [newline]) x)"
    by (simp add: fun_eq_iff split: prod.split)
  then show ?thesis
    by (simp add: format_bibtex_entry_def Let_def fold_append_lines)
qed

text \<open>
  C5 as stated fails: for entry\_type \<open>Article\<close> the block opens with \<open>@article\<close>, and
  the stored spelling occurs nowhere in it.
\<close>

theorem format_bibtex_entry_not_verbatim:
  "format_bibtex_entry ((mk_ref ''smith2020'')\<lparr>entry_type := ''Article''\<rparr>) =
     ''@article{smith2020,'' @ [newline] @ ''}'' \<and>
   \<not> contains ''Article'' (format_bibtex_entry ((mk_ref ''smith2020'')\<lparr>entry_type := ''Article''\<rparr>))"
  by code_simp

text \<open>
  C4: \<open>get_formatted_author_year\<close> splits the author field on \<open>and\<close> without
  the surrounding spaces, so a single author whose name contains these letters is cut in
  two: for author \<open>Sandberg, A.\<close> and year 2020 the code returns
  \<open>S and berg (2020)\<close>, where the rule of the claim (separator \<open>" and "\<close>) gives
  \<open>Sandberg (2020)\<close>.
\<close>

theorem author_year_splits_inside_names:
  "get_formatted_author_year (with_fields [(''author'', ''Sandberg, A.''), (''year'', ''2020'')])
     = Inr ''S and berg (2020)'' \<and>
   author_year_spec (with_fields [(''author'', ''Sandberg, A.''), (''year'', ''2020'')])
     = ''Sandberg (2020)''"
  by code_simp

text \<open>
  C6: \<open>get_standardized_filename\<close> has the same separator: for author
  \<open>Sandberg, A.\<close>, year 2021 and title \<open>A Study of Things!!\<close> the code returns
  \<open>S_2021_A_Study_of.pdf\<close>, where the rule of the claim gives
  \<open>Sandberg_2021_A_Study_of.pdf\<close>.
\<close>

theorem filename_splits_inside_names:
  "get_standardized_filename
     (with_fields [(''author'', ''Sandberg, A.''), (''year'', ''2021''), (''title'', ''A Study of Things!!'')])
     = Inr ''S_2021_A_Study_of.pdf'' \<and>
   filename_spec
     (with_fields [(''author'', ''Sandberg, A.''), (''year'', ''2021''), (''title'', ''A Study of Things!!'')])
     = ''Sandberg_2021_A_Study_of.pdf''"
  by code_simp

text \<open>
  C3 (as amended): let R be a sequence of References whose field names are pairwise
  distinct and do not include the reserved names \<open>ID\<close> and \<open>ENTRYTYPE\<close>, and let the
  library read back, from the text it wrote for the entries of R, entries with the same
  name-to-value mappings (in any order). Then parsing the file written from R succeeds and
  yields the same set of (key, entry\_type, field mapping) triples as R.
\<close>

theorem round_trip_triples:
  assumes fields: "\<forall>r \<in> set R. distinct (map fst (fields_map r)) \<and>
              ''ID'' \<notin> fst ` set (fields_map r) \<and> ''ENTRYTYPE'' \<notin> fst ` set (fields_map r)"
    and lib: "load (dump (map entry_of_reference R)) = Inr es"
    and same: "map_of ` set es = map_of ` set (map entry_of_reference R)"
  shows "\<exists>R'. parse_bibtex_file load (write_bibtex_file dump R path fs) path = Inr R' \<and>
               triple ` set R' = triple ` set R"
proof -
  have tr: "entry_triple (map_of (entry_of_reference r)) = triple r" if "r \<in> set R" for r
    using fields that by (intro map_of_entry_of_reference) auto
  have ok: "\<forall>e \<in> set es. \<exists>r'. reference_of_entry path e = Inr r' \<and>
               triple r' = entry_triple (map_of e)"
  proof
    fix e assume "e \<in> set es"
    then have "map_of e \<in> map_of ` set (map entry_of_reference R)" using same by blast
    then obtain r where r: "r \<in> set R" and e: "map_of e = map_of (entry_of_reference r)" by auto
    from fields r have dd: "distinct (map fst (fields_map r))" by blast
    have m: "map_of (entry_of_reference r) =
        map_of [(''ID'', key r), (''ENTRYTYPE'', entry_type r)] ++ map_of (fields_map r)"
      using map_of_fold_dict_set [OF dd, of "[(''ID'', key r), (''ENTRYTYPE'', entry_type r)]"]
      by (simp only: entry_of_reference_def)
    have none: "map_of (fields_map r) ''ID'' = None" "map_of (fields_map r) ''ENTRYTYPE'' = None"
      using fields r by (simp_all add: map_of_eq_None_iff)
    have "map_of e ''ID'' = Some (key r)" "map_of e ''ENTRYTYPE'' = Some (entry_type r)"
      using none by (simp_all add: e m map_add_def)
    from reference_of_entry_triple [OF this]
    show "\<exists>r'. reference_of_entry path e = Inr r' \<and> triple r' = entry_triple (map_of e)"
      by blast
  qed
  from map_result_all_ok [where P = "\<lambda>e r'. triple r' = entry_triple (map_of e)", OF ok]
  obtain R' where R': "map_result (reference_of_entry path) es = Inr R'"
    and all2: "list_all2 (\<lambda>e r'. triple r' = entry_triple (map_of e)) es R'" by blast
  have "triple ` set R' = (\<lambda>e. entry_triple (map_of e)) ` set es"
    using all2 by (induction es R' rule: list_all2_induct) auto
  also have "\<dots> = entry_triple ` (map_of ` set es)" by (simp add: image_image)
  also have "\<dots> = entry_triple ` (map_of ` set (map entry_of_reference R))" by (simp only: same)
  also have "\<dots> = triple ` set R" using tr by (auto simp: image_image intro!: image_eqI)
  finally have "triple ` set R' = triple ` set R" .
  moreover have "parse_bibtex_file load (write_bibtex_file dump R path fs) path = Inr R'"
    by (simp add: parse_bibtex_file_def write_bibtex_file_def lib bind_def R')
  ultimately show ?thesis by blast
qed

theorem round_trip_triples_witness:
  "\<exists>R'. parse_bibtex_file Inr
           (write_bibtex_file (\<lambda>es. es) [(mk_ref ''smith2020'')\<lparr>fields_map := [(''author'', ''Smith, J.'')]\<rparr>]
              ''out.bib'' Map.empty) ''out.bib'' = Inr R' \<and>
        triple ` set R' = triple ` set [(mk_ref ''smith2020'')\<lparr>fields_map := [(''author'', ''Smith, J.'')]\<rparr>]"
  by (rule round_trip_triples [where es = "map entry_of_reference
         [(mk_ref ''smith2020'')\<lparr>fields_map := [(''author'', ''Smith, J.'')]\<rparr>]"]) simp_all

text \<open>
  C3 as stated fails, even with a library that reads back exactly what it wrote: a field
  named \<open>ID\<close> replaces the key in the entry handed to the library, so a Reference with
  key k and a field \<open>ID\<close> of value x is read back with key x, and it is written exactly
  as the Reference with key x and the same field is.
\<close>

theorem round_trip_loses_key:
  "parse_bibtex_file Inr
     (write_bibtex_file (\<lambda>es. es) [(mk_ref ''k'')\<lparr>fields_map := [(''ID'', ''x'')]\<rparr>] ''out.bib'' Map.empty)
     ''out.bib'' = Inr [(mk_ref ''x'')\<lparr>file_path := Some ''out.bib''\<rparr>] \<and>
   key ((mk_ref ''k'')\<lparr>fields_map := [(''ID'', ''x'')]\<rparr>) = ''k'' \<and>
   entry_of_reference ((mk_ref ''k'')\<lparr>fields_map := [(''ID'', ''x'')]\<rparr>) =
     entry_of_reference ((mk_ref ''x'')\<lparr>fields_map := [(''ID'', ''x'')]\<rparr>)"
  by (simp add: parse_bibtex_file_def write_bibtex_file_def entry_of_reference_def mk_ref_def
        reference_of_entry_def dict_pop_def dict_del_def bind_def)

text \<open>
  C9 (as amended): every Reference produced by parsing a BibTeX file has file\_path set to
  the path of that file, and the attach-file operation, when it succeeds, sets file\_path
  of the Reference to the destination path: base directory, project name and standardized
  filename joined.
\<close>

theorem file_path_after_parse_and_attach:
  "(parse_bibtex_file load fs path = Inr rs \<longrightarrow> (\<forall>r \<in> set rs. file_path r = Some path)) \<and>
   (a < length (store w) \<and> add_reference_file joinpath fm project a src w = Inr w' \<longrightarrow>
      (\<exists>std_filename. get_standardized_filename (store w ! a) = Inr std_filename \<and>
         file_path (store w' ! a) =
           Some (joinpath (joinpath (base_dir fm) (name project)) std_filename)))"
proof (intro conjI impI)
  assume p: "parse_bibtex_file load fs path = Inr rs"
  then obtain content es where "fs path = Some content" "load content = Inr es"
    and mr: "map_result (reference_of_entry path) es = Inr rs"
    by (auto simp: parse_bibtex_file_def bind_def split: option.splits sum.splits)
  from map_result_Inr [OF mr] have "list_all2 (\<lambda>e r. reference_of_entry path e = Inr r) es rs" .
  then have "\<forall>r \<in> set rs. \<exists>e. reference_of_entry path e = Inr r"
    by (induction es rs rule: list_all2_induct) auto
  then show "\<forall>r \<in> set rs. file_path r = Some path"
    using reference_of_entry_file_path by blast
next
  assume "a < length (store w) \<and> add_reference_file joinpath fm project a src w = Inr w'"
  then show "\<exists>std_filename. get_standardized_filename (store w ! a) = Inr std_filename \<and>
         file_path (store w' ! a) =
           Some (joinpath (joinpath (base_dir fm) (name project)) std_filename)"
    by (auto simp: add_reference_file_def bind_def Let_def split: sum.splits option.splits)
qed

theorem file_path_after_parse_and_attach_witness:
  "parse_bibtex_file Inr [''refs.bib'' \<mapsto> [[(''ID'', ''smith2020''), (''ENTRYTYPE'', ''article'')]]] ''refs.bib''
     = Inr [(mk_ref ''smith2020'')\<lparr>file_path := Some ''refs.bib''\<rparr>] \<and>
   file_path ((mk_ref ''smith2020'')\<lparr>file_path := Some ''refs.bib''\<rparr>) = Some ''refs.bib'' \<and>
   (\<exists>w'. add_reference_file (\<lambda>a b. a @ ''/'' @ b) \<lparr>base_dir = ''references''\<rparr>
            \<lparr>name = ''demo'', references = [(''ref'', 0)], project_file_path = None\<rparr> 0 ''paper.pdf''
            \<lparr>store = [with_fields [(''author'', ''Doe, J.''), (''year'', ''2021''), (''title'', ''A Study of Things!!'')]],
             files = [''paper.pdf'' \<mapsto> ''pdf'']\<rparr> = Inr w' \<and>
         file_path (store w' ! 0) = Some ''references/demo/Doe_2021_A_Study_of.pdf'')"
proof -
  let ?fs = "[''refs.bib'' \<mapsto> [[(''ID'', ''smith2020''), (''ENTRYTYPE'', ''article'')]]]"
  let ?r = "(mk_ref ''smith2020'')\<lparr>file_path := Some ''refs.bib''\<rparr>"
  let ?j = "\<lambda>a b. a @ ''/'' @ b"
  let ?fm = "\<lparr>base_dir = ''references''\<rparr>"
  let ?p = "\<lparr>name = ''demo'', references = [(''ref'', 0)], project_file_path = None\<rparr>"
  let ?w = "\<lparr>store = [with_fields [(''author'', ''Doe, J.''), (''year'', ''2021''), (''title'', ''A Study of Things!!'')]],
             files = [''paper.pdf'' \<mapsto> ''pdf'']\<rparr>"
  have parse: "parse_bibtex_file Inr ?fs ''refs.bib'' = Inr [?r]"
    by (simp add: parse_bibtex_file_def reference_of_entry_def dict_pop_def dict_del_def bind_def
          mk_ref_def)
  have name: "get_standardized_filename (store ?w ! 0) = Inr ''Doe_2021_A_Study_of.pdf''"
    by (simp add: filename_example)
  then obtain w' where attach: "add_reference_file ?j ?fm ?p 0 ''paper.pdf'' ?w = Inr w'"
    by (simp add: add_reference_file_def bind_def Let_def)
  have len: "0 < length (store ?w)" by simp
  from file_path_after_parse_and_attach [of Inr ?fs "''refs.bib''" "[?r]" 0 ?w ?j ?fm ?p "''paper.pdf''" w']
    parse attach len
  have "file_path ?r = Some ''refs.bib''"
    and "\<exists>std_filename. get_standardized_filename (store ?w ! 0) = Inr std_filename \<and>
         file_path (store w' ! 0) = Some (?j (?j (base_dir ?fm) (name ?p)) std_filename)"
    by simp_all
  with name have "file_path ?r = Some ''refs.bib''"
    and "file_path (store w' ! 0) = Some ''references/demo/Doe_2021_A_Study_of.pdf''"
    by simp_all
  with parse attach show ?thesis by blast
qed

text \<open>
  C9 as stated fails: the Reference parsed from a one-entry file \<open>refs.bib\<close> has
  file\_path \<open>refs.bib\<close> although no document was attached.
\<close>

theorem parsed_reference_has_file_path:
  "parse_bibtex_file Inr [''refs.bib'' \<mapsto> [[(''ID'', ''smith2020''), (''ENTRYTYPE'', ''article'')]]] ''refs.bib''
     = Inr [(mk_ref ''smith2020'')\<lparr>file_path := Some ''refs.bib''\<rparr>] \<and>
   file_path ((mk_ref ''smith2020'')\<lparr>file_path := Some ''refs.bib''\<rparr>) \<noteq> None"
  by (simp add: parse_bibtex_file_def reference_of_entry_def dict_pop_def dict_del_def bind_def
        mk_ref_def)




end
